theory Spec2Isabelle
  imports Main "HOL-Library.Word" "HOL-Library.Sublist"
begin

section \<open>Values\<close>

text \<open>
  The header \<^verbatim>\<open>bowl.h\<close> declares the value model of the virtual machine: an enumeration
  of ten value types and a structure \<^verbatim>\<open>struct bowl_value\<close> with a header
  (\<^verbatim>\<open>type\<close>, \<^verbatim>\<open>location\<close>, \<^verbatim>\<open>hash\<close>) and a union of per-type payloads. A
  \<^verbatim>\<open>BowlValue\<close> is a pointer to such a structure.
\<close>

type_synonym u64 = "64 word"

datatype BowlValueType =
    BowlSymbolValue
  | BowlListValue
  | BowlNativeValue
  | BowlMapValue
  | BowlBooleanValue
  | BowlNumberValue
  | BowlStringValue
  | BowlLibraryValue
  | BowlVectorValue
  | BowlExceptionValue

text \<open>
  The type \<open>BowlValue\<close> models the C pointer type of the same name: \<open>Null\<close> is the null
  pointer and every other constructor is a pointer to a cell of the corresponding type
  together with the contents of that cell. The tag of the union is the constructor. The
  field \<open>hash\<close> is the cached hash of the header. A flexible array member (\<^verbatim>\<open>bytes[]\<close>,
  \<^verbatim>\<open>buckets[]\<close>, \<^verbatim>\<open>elements[]\<close>) is a list, whose length is the length field that
  the structure stores in front of it; bytes are characters. The fields \<^verbatim>\<open>length\<close> of a
  list and of a map are stored numbers in their own right and are kept as such. A number
  is kept as the 64 bits of its IEEE 754 encoding; a native function pointer and a library
  handle are kept as addresses. The forwarding pointer \<^verbatim>\<open>location\<close> is read and written
  by the garbage collector only and is left out.
\<close>

datatype BowlValue =
    Null
  | Symbol (hash: u64) (bytes: string)
  | List (hash: u64) (list_length: u64) (head: BowlValue) (tail: BowlValue)
  | Native (hash: u64) (library: BowlValue) (native_function: nat)
  | Map (hash: u64) (map_length: u64) (buckets: "BowlValue list")
  | Boolean (hash: u64) (boolean_value: bool)
  | Number (hash: u64) (number_value: u64)
  | String (hash: u64) (bytes: string)
  | Library (hash: u64) (handle: nat) (bytes: string)
  | Vector (hash: u64) (elements: "BowlValue list")
  | Exception (hash: u64) (cause: BowlValue) (message: BowlValue)


section \<open>Stack frames\<close>

text \<open>
  A \<^verbatim>\<open>BowlValue *\<close> points to a variable that holds a value: either a variable outside of
  any frame, or one of the three registers of a frame. A \<^verbatim>\<open>BowlStack\<close> is a pointer to a
  frame. Pointers are optional addresses, \<open>None\<close> being \<^verbatim>\<open>NULL\<close>. In the C program a
  \<^verbatim>\<open>BowlValue *\<close> can also point into a cell of the heap, to the field \<^verbatim>\<open>list.tail\<close> of a
  list cell for one. Values are terms here and have no fields to point to, so these
  pointers are not among the pointers below, and no statement below is about what a macro
  writes through every pointer that it can be given.
\<close>

type_synonym addr = nat

datatype pointer = Variable addr | Register addr nat

record BowlStackFrame =
  previous :: "addr option"
  registers :: "BowlValue list"
  dictionary :: "pointer option"
  callstack :: "pointer option"
  datastack :: "pointer option"

record memory =
  frames :: "addr \<Rightarrow> BowlStackFrame option"
  variables :: "addr \<Rightarrow> BowlValue option"

text \<open>
  Dereferencing a null pointer, or a pointer to no object, is undefined behaviour in C, and
  so is a remainder by zero: the model makes each of them a fault. Reading a member of the
  union from a cell of another type gives the bytes of the member that was written, and
  the C program goes on with them; terms do not have these bytes, so the model stops there
  with a fault as well, and no statement below is about such a read.
\<close>

datatype fault = NullDereference | InvalidPointer | WrongUnionMember | DivisionByZero

definition frame_at :: "memory \<Rightarrow> addr option \<Rightarrow> fault + BowlStackFrame" where
  "frame_at mem stack =
     (case stack of
        None \<Rightarrow> Inl NullDereference
      | Some p \<Rightarrow> (case frames mem p of None \<Rightarrow> Inl InvalidPointer | Some f \<Rightarrow> Inr f))"

text \<open>
  \<^verbatim>\<open>BOWL_ALLOCATE_STACK_FRAME(stack, a, b, c)\<close> is a designated initializer that reads
  three fields through \<^verbatim>\<open>stack\<close>; \<^verbatim>\<open>BOWL_EMPTY_STACK_FRAME(stack)\<close> reads nothing.
\<close>

definition BOWL_ALLOCATE_STACK_FRAME ::
  "memory \<Rightarrow> addr option \<Rightarrow> BowlValue \<Rightarrow> BowlValue \<Rightarrow> BowlValue \<Rightarrow> fault + BowlStackFrame" where
  "BOWL_ALLOCATE_STACK_FRAME mem stack a b c =
     (case frame_at mem stack of
        Inl e \<Rightarrow> Inl e
      | Inr s \<Rightarrow> Inr \<lparr> previous = stack,
                      registers = [a, b, c],
                      dictionary = dictionary s,
                      callstack = callstack s,
                      datastack = datastack s \<rparr>)"

definition BOWL_EMPTY_STACK_FRAME :: "memory \<Rightarrow> addr option \<Rightarrow> fault + BowlStackFrame" where
  "BOWL_EMPTY_STACK_FRAME mem stack =
     Inr \<lparr> previous = stack,
           registers = [Null, Null, Null],
           dictionary = None,
           callstack = None,
           datastack = None \<rparr>"

section \<open>Heap, results and constructors\<close>

text \<open>
  \<^verbatim>\<open>api.h\<close> declares \<^verbatim>\<open>BowlResult\<close>: a flag and a union of two members, \<^verbatim>\<open>value\<close>
  and \<^verbatim>\<open>exception\<close>, that name the same storage. The field \<open>content\<close> is that storage.
\<close>

record BowlResult =
  failure :: bool
  content :: BowlValue

definition success :: "BowlValue \<Rightarrow> BowlResult" where
  "success v = \<lparr> failure = False, content = v \<rparr>"

definition failed :: "BowlValue \<Rightarrow> BowlResult" where
  "failed e = \<lparr> failure = True, content = e \<rparr>"

text \<open>
  Modelled from the spec: the heap arena and \<^verbatim>\<open>bowl_allocate\<close>, of which \<^verbatim>\<open>api.h\<close>
  holds the declaration only. The spec (4.1): allocation bumps a pointer in the from-space;
  if the request would overflow, the collector is invoked and the request is retried
  exactly once; a second failure yields the preallocated out-of-heap exception without
  allocating. The size of a cell is the header and the fixed fields plus the additional
  bytes. The collector itself is not modelled: it is a parameter \<open>gc\<close> that gives the
  size of the from-space and the position of the pointer after a collection, so that every
  theorem holds for every collector. The counter \<open>collections\<close> records its runs. An
  exception of the collector itself, a finalization that failed, is not modelled.
\<close>

record heap =
  heap_size :: nat
  heap_used :: nat
  collections :: nat

type_synonym collector = "heap \<Rightarrow> nat \<times> nat"

definition bowl_collect_garbage :: "collector \<Rightarrow> heap \<Rightarrow> heap" where
  "bowl_collect_garbage gc h =
     \<lparr> heap_size = fst (gc h), heap_used = snd (gc h), collections = collections h + 1 \<rparr>"

text \<open>
  \<^verbatim>\<open>sizeof(struct bowl_value)\<close> for the structure that \<^verbatim>\<open>bowl.h\<close> declares, on a
  platform with pointers of eight bytes: the type with its padding, the forwarding pointer,
  the hash, and the largest member of the union, the three fields of a list.
\<close>

definition sizeof_bowl_value :: nat where
  "sizeof_bowl_value = 48"

text \<open>
  Modelled from the spec: the preallocated exception \<^verbatim>\<open>bowl_exception_out_of_heap\<close>,
  declared \<^verbatim>\<open>extern\<close> in \<^verbatim>\<open>api.h\<close> as a preallocated string exception that is used
  whenever there is not enough heap memory available. It is one fixed value. The text of
  its message is not in the sources: the literal below stands in for it, and no statement
  below depends on what it says.
\<close>

definition bowl_exception_out_of_heap :: BowlValue where
  "bowl_exception_out_of_heap = Exception 0 Null (String 0 ''out of heap'')"

text \<open>
  The cell that \<^verbatim>\<open>bowl_allocate\<close> hands out: the type is set and the header is
  zero-filled, so the cached hash is 0. The fields of the payload are not initialized; the
  constructors below overwrite every one of them.
\<close>

fun blank :: "BowlValueType \<Rightarrow> BowlValue" where
  "blank BowlSymbolValue = Symbol 0 []"
| "blank BowlListValue = List 0 0 Null Null"
| "blank BowlNativeValue = Native 0 Null 0"
| "blank BowlMapValue = Map 0 0 []"
| "blank BowlBooleanValue = Boolean 0 False"
| "blank BowlNumberValue = Number 0 0"
| "blank BowlStringValue = String 0 []"
| "blank BowlLibraryValue = Library 0 0 []"
| "blank BowlVectorValue = Vector 0 []"
| "blank BowlExceptionValue = Exception 0 Null Null"

definition fits :: "heap \<Rightarrow> nat \<Rightarrow> bool" where
  "fits h n = (heap_used h + n \<le> heap_size h)"

definition bump :: "heap \<Rightarrow> nat \<Rightarrow> heap" where
  "bump h n = h \<lparr> heap_used := heap_used h + n \<rparr>"

definition bowl_allocate :: "collector \<Rightarrow> heap \<Rightarrow> BowlValueType \<Rightarrow> u64 \<Rightarrow> heap \<times> BowlResult" where
  "bowl_allocate gc h t additional =
     (let n = sizeof_bowl_value + unat additional in
      if fits h n then (bump h n, success (blank t))
      else
        (let h1 = bowl_collect_garbage gc h in
         if fits h1 n then (bump h1 n, success (blank t))
         else (h1, failed bowl_exception_out_of_heap)))"



fun format :: "string \<Rightarrow> string list \<Rightarrow> string" where
  "format [] args = []"
| "format [c] args = [c]"
| "format (c # d # rest) args =
     (if c = CHR ''%'' \<and> d = CHR ''s''
      then (case args of [] \<Rightarrow> format rest [] | a # as \<Rightarrow> a @ format rest as)
      else c # format (d # rest) args)"


section \<open>The macros of the programming interface\<close>

text \<open>
  A macro that holds a \<^verbatim>\<open>return\<close> statement either returns a value from the function
  that uses it, or lets the function proceed.
\<close>

datatype control = Return BowlValue | Proceed

definition and_then :: "fault + 'a \<Rightarrow> ('a \<Rightarrow> fault + 'b) \<Rightarrow> fault + 'b" where
  "and_then x f = (case x of Inl e \<Rightarrow> Inl e | Inr a \<Rightarrow> f a)"

definition deref :: "'a option \<Rightarrow> fault + 'a" where
  "deref p = (case p of None \<Rightarrow> Inl NullDereference | Some a \<Rightarrow> Inr a)"

fun load :: "memory \<Rightarrow> pointer \<Rightarrow> fault + BowlValue" where
  "load mem (Variable a) =
     (case variables mem a of None \<Rightarrow> Inl InvalidPointer | Some v \<Rightarrow> Inr v)"
| "load mem (Register p i) =
     (case frames mem p of
        None \<Rightarrow> Inl InvalidPointer
      | Some f \<Rightarrow> if i < 3 \<and> i < length (registers f) then Inr (registers f ! i)
                  else Inl InvalidPointer)"

fun store :: "memory \<Rightarrow> pointer \<Rightarrow> BowlValue \<Rightarrow> fault + memory" where
  "store mem (Variable a) v =
     (case variables mem a of
        None \<Rightarrow> Inl InvalidPointer
      | Some _ \<Rightarrow> Inr (mem \<lparr> variables := (variables mem)(a := Some v) \<rparr>))"
| "store mem (Register p i) v =
     (case frames mem p of
        None \<Rightarrow> Inl InvalidPointer
      | Some f \<Rightarrow>
          if i < 3 \<and> i < length (registers f)
          then Inr (mem \<lparr> frames := (frames mem)(p := Some (f \<lparr> registers := (registers f)[i := v] \<rparr>)) \<rparr>)
          else Inl InvalidPointer)"

text \<open>The members \<^verbatim>\<open>list.head\<close> and \<^verbatim>\<open>list.tail\<close>, read through a pointer.\<close>

fun list_head :: "BowlValue \<Rightarrow> fault + BowlValue" where
  "list_head Null = Inl NullDereference"
| "list_head (List _ _ x _) = Inr x"
| "list_head _ = Inl WrongUnionMember"

fun list_tail :: "BowlValue \<Rightarrow> fault + BowlValue" where
  "list_tail Null = Inl NullDereference"
| "list_tail (List _ _ _ xs) = Inr xs"
| "list_tail _ = Inl WrongUnionMember"

text \<open>The value of \<^verbatim>\<open>*(stack)->datastack\<close> and the assignment to it.\<close>

definition datastack_of :: "memory \<Rightarrow> addr option \<Rightarrow> fault + pointer" where
  "datastack_of mem stack = and_then (frame_at mem stack) (\<lambda>f. deref (datastack f))"

text \<open>
  The macros call \<^verbatim>\<open>bowl_format_exception\<close>, which \<^verbatim>\<open>api.h\<close> declares and does not
  define: to them it is the parameter \<open>format_exception\<close>, a function of the heap, the
  message and the format data. The macros take the member \<^verbatim>\<open>value\<close> of its result, the
  \<open>content\<close>, whatever the flag of the result says. The documentation in \<^verbatim>\<open>api.h\<close> says
  of the helper that it creates a new exception on basis of the message and its format
  data and returns either the exception or any other exception which arose while creating
  it: \<open>formatter_ok\<close> says that a result that is no failure is an exception whose message
  is the string that \<^verbatim>\<open>printf\<close> gives for the message and the format data.
\<close>

type_synonym formatter = "heap \<Rightarrow> string \<Rightarrow> string list \<Rightarrow> heap \<times> BowlResult"

definition formatter_ok :: "formatter \<Rightarrow> bool" where
  "formatter_ok format_exception =
     (\<forall>h msg args. \<not> failure (snd (format_exception h msg args)) \<longrightarrow>
        (\<exists>hs c hs'. content (snd (format_exception h msg args)) =
                       Exception hs c (String hs' (format msg args))))"

text \<open>
  \<^verbatim>\<open>BOWL_STACK_POP_VALUE(stack, variable)\<close>: a test with a \<^verbatim>\<open>return\<close> and two assignments,
  each of which evaluates \<^verbatim>\<open>*(stack)->datastack\<close> anew. \<open>fn\<close> is the value of
  \<^verbatim>\<open>__FUNCTION__\<close> where the macro is used.
\<close>

definition stack_underflow :: string where
  "stack_underflow = ''stack underflow in function '%s'' @ [CHR 0x27]"

definition BOWL_STACK_POP_VALUE ::
  "formatter \<Rightarrow> string \<Rightarrow> heap \<Rightarrow> memory \<Rightarrow> addr option \<Rightarrow> pointer option
    \<Rightarrow> fault + (heap \<times> memory \<times> control)" where
  "BOWL_STACK_POP_VALUE format_exception fn h mem stack variable =
     and_then (datastack_of mem stack) (\<lambda>d.
     and_then (load mem d) (\<lambda>top.
       if top = Null then
         (case format_exception h stack_underflow [fn] of
            (h1, r) \<Rightarrow> Inr (h1, mem, Return (content r)))
       else
         and_then (list_head top) (\<lambda>x.
         and_then (deref variable) (\<lambda>target.
         and_then (store mem target x) (\<lambda>mem1.
         and_then (datastack_of mem1 stack) (\<lambda>d1.
         and_then (load mem1 d1) (\<lambda>top1.
         and_then (list_tail top1) (\<lambda>xs.
         and_then (store mem1 d1 xs) (\<lambda>mem2.
           Inr (h, mem2, Proceed))))))))))"



section \<open>Lists\<close>

text \<open>
  A function that allocates returns a \<^verbatim>\<open>BowlResult\<close>. \<open>on_success\<close> is the step that
  \<^verbatim>\<open>BOWL_TRY\<close> of \<^verbatim>\<open>api.h\<close> writes: a failure is handed on as it is, the value of a
  success goes to the rest of the computation, together with the heap.
\<close>

definition on_success ::
  "fault + heap \<times> BowlResult \<Rightarrow> (heap \<Rightarrow> BowlValue \<Rightarrow> fault + heap \<times> BowlResult)
    \<Rightarrow> fault + heap \<times> BowlResult" where
  "on_success x f =
     (case x of
        Inl e \<Rightarrow> Inl e
      | Inr (h, r) \<Rightarrow> if failure r then Inr (h, r) else f h (content r))"

text \<open>
  Modelled from the spec: the constructor \<^verbatim>\<open>bowl_list\<close> and \<^verbatim>\<open>bowl_list_reverse\<close>,
  declared in \<^verbatim>\<open>api.h\<close>. The spec (4.5): lists are persistent and singly linked;
  \<^verbatim>\<open>list(head, tail)\<close> allocates a new cell whose length is 1 plus the length of the tail,
  0 for a null tail; reverse allocates one new cell for every cell of its argument. The
  length is a 64-bit number, and the sum wraps around. Reading the members of a list from
  a cell of another type is a fault.
\<close>

fun stored_length :: "BowlValue \<Rightarrow> fault + u64" where
  "stored_length Null = Inr 0"
| "stored_length (List _ n _ _) = Inr n"
| "stored_length _ = Inl WrongUnionMember"

definition bowl_list :: "collector \<Rightarrow> heap \<Rightarrow> BowlValue \<Rightarrow> BowlValue \<Rightarrow> fault + heap \<times> BowlResult" where
  "bowl_list gc h x xs =
     and_then (stored_length xs) (\<lambda>n.
       case bowl_allocate gc h BowlListValue 0 of
         (h1, r) \<Rightarrow> if failure r then Inr (h1, r) else Inr (h1, success (List 0 (1 + n) x xs)))"






section \<open>Maps\<close>

text \<open>
  Modelled from the spec: the map operations \<^verbatim>\<open>bowl_map\<close>, \<^verbatim>\<open>bowl_map_get_or_else\<close>,
  \<^verbatim>\<open>bowl_map_put\<close> and \<^verbatim>\<open>bowl_map_delete\<close>, declared in \<^verbatim>\<open>api.h\<close>. The spec (3.1,
  4.5): a map is an immutable cell with a number of entries and a number of buckets; a
  bucket is a list whose elements alternate key, value, key, value; the bucket of a key
  is its hash modulo the capacity; every operation that changes a map produces a new map
  cell.

  \<^verbatim>\<open>bowl_value_hash\<close> and \<^verbatim>\<open>bowl_value_equals\<close> are declared in \<^verbatim>\<open>api.h\<close> as well.
  The spec leaves the hash function open, so both are parameters of the model: \<open>hash_of\<close>
  is the number that \<^verbatim>\<open>bowl_value_hash\<close> returns for a value and \<open>eq\<close> is the relation
  that \<^verbatim>\<open>bowl_value_equals\<close> decides.
\<close>

definition bucket_index :: "(BowlValue \<Rightarrow> u64) \<Rightarrow> BowlValue \<Rightarrow> nat \<Rightarrow> nat" where
  "bucket_index hash_of k capacity = unat (hash_of k) mod capacity"

text \<open>
  \<^verbatim>\<open>get_or_else(m, k, d)\<close>: bucket lookup; the value of the first pair whose key equals
  \<open>k\<close> if there is one, else \<open>d\<close>. A map without buckets makes the remainder a remainder
  by zero.
\<close>

fun bucket_find :: "(BowlValue \<Rightarrow> BowlValue \<Rightarrow> bool) \<Rightarrow> BowlValue \<Rightarrow> BowlValue \<Rightarrow> fault + BowlValue option" where
  "bucket_find eq Null k = Inr None"
| "bucket_find eq (List _ _ key (List _ _ v rest)) k =
     (if eq key k then Inr (Some v) else bucket_find eq rest k)"
| "bucket_find eq (List _ _ key Null) k = Inl NullDereference"
| "bucket_find eq _ k = Inl WrongUnionMember"


text \<open>
  \<^verbatim>\<open>put(m, k, v)\<close>: locate the bucket; if the key is present, build a new bucket list
  with that pair replaced, else prepend the pair; copy all other buckets by reference. The
  new length is one more exactly when the key was absent. Every new list cell comes from
  \<^verbatim>\<open>bowl_list\<close> and the new map cell from the allocator, with eight bytes for each
  bucket. The pair that replaces the old one holds the key and the value that are given,
  and the cells of a bucket behind it are shared. The spec forbids a null key in a bucket;
  the operations do not look at the key, the rule is left to the caller.
\<close>

definition pair_onto ::
  "collector \<Rightarrow> heap \<Rightarrow> BowlValue \<Rightarrow> BowlValue \<Rightarrow> BowlValue \<Rightarrow> fault + heap \<times> BowlResult" where
  "pair_onto gc h k v rest =
     on_success (bowl_list gc h v rest) (\<lambda>h1 vs. bowl_list gc h1 k vs)"

fun bucket_replace ::
  "collector \<Rightarrow> heap \<Rightarrow> (BowlValue \<Rightarrow> BowlValue \<Rightarrow> bool) \<Rightarrow> BowlValue \<Rightarrow> BowlValue \<Rightarrow> BowlValue
    \<Rightarrow> fault + heap \<times> BowlResult" where
  "bucket_replace gc h eq Null k v = Inr (h, success Null)"
| "bucket_replace gc h eq (List _ _ key (List _ _ old rest)) k v =
     (if eq key k then pair_onto gc h k v rest
      else on_success (bucket_replace gc h eq rest k v)
             (\<lambda>h1 rest1. pair_onto gc h1 key old rest1))"
| "bucket_replace gc h eq (List _ _ key Null) k v = Inl NullDereference"
| "bucket_replace gc h eq _ k v = Inl WrongUnionMember"

definition map_cell :: "collector \<Rightarrow> heap \<Rightarrow> u64 \<Rightarrow> BowlValue list \<Rightarrow> fault + heap \<times> BowlResult" where
  "map_cell gc h n bs =
     (case bowl_allocate gc h BowlMapValue (of_nat (8 * length bs)) of
        (h1, r) \<Rightarrow> if failure r then Inr (h1, r) else Inr (h1, success (Map 0 n bs)))"

definition bowl_map :: "collector \<Rightarrow> heap \<Rightarrow> u64 \<Rightarrow> fault + heap \<times> BowlResult" where
  "bowl_map gc h capacity = map_cell gc h 0 (replicate (unat capacity) Null)"

text \<open>
  Growth: if the resulting load factor exceeds 0.75, a map of a larger capacity, the next
  power of two that is at least twice the length, is allocated and rebuilt: every pair of
  the old buckets is prepended to its bucket in the new map.
\<close>

fun insert_pair ::
  "collector \<Rightarrow> heap \<Rightarrow> (BowlValue \<Rightarrow> u64) \<Rightarrow> BowlValue \<Rightarrow> BowlValue \<Rightarrow> BowlValue
    \<Rightarrow> fault + heap \<times> BowlResult" where
  "insert_pair gc h hash_of (Map hs n bs) k v =
     (if bs = [] then Inl DivisionByZero
      else on_success (pair_onto gc h k v (bs ! bucket_index hash_of k (length bs)))
             (\<lambda>h1 b. Inr (h1, success (Map hs n (bs[bucket_index hash_of k (length bs) := b])))))"
| "insert_pair gc h hash_of Null k v = Inl NullDereference"
| "insert_pair gc h hash_of _ k v = Inl WrongUnionMember"

fun rehash_bucket ::
  "collector \<Rightarrow> heap \<Rightarrow> (BowlValue \<Rightarrow> u64) \<Rightarrow> BowlValue \<Rightarrow> BowlValue \<Rightarrow> fault + heap \<times> BowlResult" where
  "rehash_bucket gc h hash_of Null target = Inr (h, success target)"
| "rehash_bucket gc h hash_of (List _ _ key (List _ _ v rest)) target =
     on_success (insert_pair gc h hash_of target key v)
       (\<lambda>h1 target1. rehash_bucket gc h1 hash_of rest target1)"
| "rehash_bucket gc h hash_of (List _ _ key Null) target = Inl NullDereference"
| "rehash_bucket gc h hash_of _ target = Inl WrongUnionMember"

fun rehash_buckets ::
  "collector \<Rightarrow> heap \<Rightarrow> (BowlValue \<Rightarrow> u64) \<Rightarrow> BowlValue list \<Rightarrow> BowlValue \<Rightarrow> fault + heap \<times> BowlResult" where
  "rehash_buckets gc h hash_of [] target = Inr (h, success target)"
| "rehash_buckets gc h hash_of (b # bs) target =
     on_success (rehash_bucket gc h hash_of b target)
       (\<lambda>h1 target1. rehash_buckets gc h1 hash_of bs target1)"

function power_of_two_from :: "nat \<Rightarrow> nat \<Rightarrow> nat" where
  "power_of_two_from p n = (if n \<le> p \<or> p = 0 then p else power_of_two_from (2 * p) n)"
  by pat_completeness auto

termination
  by (relation "measure (\<lambda>(p, n). n - p)") auto

definition next_power_of_two :: "nat \<Rightarrow> nat" where
  "next_power_of_two n = power_of_two_from 1 n"

definition over_load_factor :: "u64 \<Rightarrow> nat \<Rightarrow> bool" where
  "over_load_factor n capacity = (3 * capacity < 4 * unat n)"

definition grow :: "collector \<Rightarrow> heap \<Rightarrow> (BowlValue \<Rightarrow> u64) \<Rightarrow> u64 \<Rightarrow> BowlValue list \<Rightarrow> fault + heap \<times> BowlResult" where
  "grow gc h hash_of n bs =
     on_success (map_cell gc h n (replicate (next_power_of_two (2 * unat n)) Null))
       (\<lambda>h1 target. rehash_buckets gc h1 hash_of bs target)"

fun bowl_map_put ::
  "collector \<Rightarrow> heap \<Rightarrow> (BowlValue \<Rightarrow> u64) \<Rightarrow> (BowlValue \<Rightarrow> BowlValue \<Rightarrow> bool) \<Rightarrow> BowlValue \<Rightarrow> BowlValue
    \<Rightarrow> BowlValue \<Rightarrow> fault + heap \<times> BowlResult" where
  "bowl_map_put gc h hash_of eq (Map _ n bs) k v =
     (if bs = [] then Inl DivisionByZero
      else
        and_then (bucket_find eq (bs ! bucket_index hash_of k (length bs)) k) (\<lambda>found.
          on_success
            (case found of
               None \<Rightarrow> pair_onto gc h k v (bs ! bucket_index hash_of k (length bs))
             | Some _ \<Rightarrow> bucket_replace gc h eq (bs ! bucket_index hash_of k (length bs)) k v)
            (\<lambda>h1 b.
               let n1 = (case found of None \<Rightarrow> n + 1 | Some _ \<Rightarrow> n);
                   bs1 = bs[bucket_index hash_of k (length bs) := b]
               in if over_load_factor n1 (length bs1) then grow gc h1 hash_of n1 bs1
                  else map_cell gc h1 n1 bs1)))"
| "bowl_map_put gc h hash_of eq Null k v = Inl NullDereference"
| "bowl_map_put gc h hash_of eq _ k v = Inl WrongUnionMember"

text \<open>
  \<^verbatim>\<open>delete(m, k)\<close>: the bucket with that key is rebuilt without the pair, the capacity is
  unchanged and the length decreases by 1. If the key is absent, the input map is returned
  and nothing is allocated.
\<close>

fun bucket_remove ::
  "collector \<Rightarrow> heap \<Rightarrow> (BowlValue \<Rightarrow> BowlValue \<Rightarrow> bool) \<Rightarrow> BowlValue \<Rightarrow> BowlValue
    \<Rightarrow> fault + heap \<times> BowlResult" where
  "bucket_remove gc h eq Null k = Inr (h, success Null)"
| "bucket_remove gc h eq (List _ _ key (List _ _ old rest)) k =
     (if eq key k then Inr (h, success rest)
      else on_success (bucket_remove gc h eq rest k)
             (\<lambda>h1 rest1. pair_onto gc h1 key old rest1))"
| "bucket_remove gc h eq (List _ _ key Null) k = Inl NullDereference"
| "bucket_remove gc h eq _ k = Inl WrongUnionMember"

fun bowl_map_delete ::
  "collector \<Rightarrow> heap \<Rightarrow> (BowlValue \<Rightarrow> u64) \<Rightarrow> (BowlValue \<Rightarrow> BowlValue \<Rightarrow> bool) \<Rightarrow> BowlValue \<Rightarrow> BowlValue
    \<Rightarrow> fault + heap \<times> BowlResult" where
  "bowl_map_delete gc h hash_of eq (Map hs n bs) k =
     (if bs = [] then Inl DivisionByZero
      else
        and_then (bucket_find eq (bs ! bucket_index hash_of k (length bs)) k) (\<lambda>found.
          case found of
            None \<Rightarrow> Inr (h, success (Map hs n bs))
          | Some _ \<Rightarrow>
              on_success (bucket_remove gc h eq (bs ! bucket_index hash_of k (length bs)) k)
                (\<lambda>h1 b. map_cell gc h1 (n - 1) (bs[bucket_index hash_of k (length bs) := b]))))"
| "bowl_map_delete gc h hash_of eq Null k = Inl NullDereference"
| "bowl_map_delete gc h hash_of eq _ k = Inl WrongUnionMember"

subsection \<open>The invariant of a map\<close>

text \<open>
  The pairs that a bucket holds, and the buckets that \<^verbatim>\<open>bowl_list\<close> builds from pairs:
  an even number of cells, each with the stored length of its tail plus 1.
\<close>

fun pairs :: "BowlValue \<Rightarrow> (BowlValue \<times> BowlValue) list" where
  "pairs (List _ _ k (List _ _ v rest)) = (k, v) # pairs rest"
| "pairs _ = []"

fun is_bucket :: "BowlValue \<Rightarrow> bool" where
  "is_bucket Null = True"
| "is_bucket (List _ n _ (List _ m _ rest)) =
     (n - 1 = m \<and> stored_length rest = Inr (m - 1) \<and> is_bucket rest)"
| "is_bucket _ = False"

text \<open>
  Lookup, replacement and removal of the first pair whose key equals \<open>k\<close>, on the list
  of pairs of a bucket.
\<close>

fun lookup :: "('k \<Rightarrow> 'k \<Rightarrow> bool) \<Rightarrow> ('k \<times> 'v) list \<Rightarrow> 'k \<Rightarrow> 'v option" where
  "lookup eq [] k = None"
| "lookup eq ((key, v) # ps) k = (if eq key k then Some v else lookup eq ps k)"

fun replace :: "('k \<Rightarrow> 'k \<Rightarrow> bool) \<Rightarrow> ('k \<times> 'v) list \<Rightarrow> 'k \<Rightarrow> 'v \<Rightarrow> ('k \<times> 'v) list" where
  "replace eq [] k v = []"
| "replace eq ((key, old) # ps) k v =
     (if eq key k then (k, v) # ps else (key, old) # replace eq ps k v)"

fun remove :: "('k \<Rightarrow> 'k \<Rightarrow> bool) \<Rightarrow> ('k \<times> 'v) list \<Rightarrow> 'k \<Rightarrow> ('k \<times> 'v) list" where
  "remove eq [] k = []"
| "remove eq ((key, old) # ps) k =
     (if eq key k then ps else (key, old) # remove eq ps k)"

text \<open>
  The maps that the operations build: the buckets are well formed, there is at least one
  bucket, no two keys of a bucket are equal, and every key lies in the bucket of its hash.
  The law that equal values have equal hashes, and that equality is an equivalence, are
  what the spec requires of \<^verbatim>\<open>bowl_value_equals\<close> and \<^verbatim>\<open>bowl_value_hash\<close>.
\<close>

definition equivalence :: "('k \<Rightarrow> 'k \<Rightarrow> bool) \<Rightarrow> bool" where
  "equivalence eq =
     ((\<forall>a. eq a a) \<and> (\<forall>a b. eq a b \<longrightarrow> eq b a) \<and> (\<forall>a b c. eq a b \<longrightarrow> eq b c \<longrightarrow> eq a c))"

definition hash_respects :: "(BowlValue \<Rightarrow> u64) \<Rightarrow> (BowlValue \<Rightarrow> BowlValue \<Rightarrow> bool) \<Rightarrow> bool" where
  "hash_respects hash_of eq = (\<forall>a b. eq a b \<longrightarrow> hash_of a = hash_of b)"

fun distinct_keys :: "('k \<Rightarrow> 'k \<Rightarrow> bool) \<Rightarrow> ('k \<times> 'v) list \<Rightarrow> bool" where
  "distinct_keys eq [] = True"
| "distinct_keys eq (p # ps) = ((\<forall>q \<in> set ps. \<not> eq (fst p) (fst q)) \<and> distinct_keys eq ps)"

definition table_ok ::
  "(BowlValue \<Rightarrow> BowlValue \<Rightarrow> bool) \<Rightarrow> (BowlValue \<Rightarrow> u64) \<Rightarrow> (BowlValue \<times> BowlValue) list list \<Rightarrow> bool" where
  "table_ok eq hash_of t =
     (t \<noteq> [] \<and>
      (\<forall>j < length t. distinct_keys eq (t ! j) \<and>
         (\<forall>p \<in> set (t ! j). bucket_index hash_of (fst p) (length t) = j)))"

fun map_ok :: "(BowlValue \<Rightarrow> BowlValue \<Rightarrow> bool) \<Rightarrow> (BowlValue \<Rightarrow> u64) \<Rightarrow> BowlValue \<Rightarrow> bool" where
  "map_ok eq hash_of (Map _ _ bs) = (list_all is_bucket bs \<and> table_ok eq hash_of (map pairs bs))"
| "map_ok eq hash_of _ = False"


text \<open>
  The table of pairs after one more pair is prepended to its bucket; the rebuilt table is
  the fold of this step over the pairs of the old table.
\<close>

fun table_insert ::
  "(BowlValue \<Rightarrow> u64) \<Rightarrow> (BowlValue \<times> BowlValue) list list \<Rightarrow> BowlValue \<times> BowlValue
    \<Rightarrow> (BowlValue \<times> BowlValue) list list" where
  "table_insert hash_of t (k, v) =
     t[bucket_index hash_of k (length t) := (k, v) # t ! bucket_index hash_of k (length t)]"

text \<open>
  A run \<open>returns\<close> a property when it ends without a fault and its value, unless it is an
  exception of the allocator, has the property.
\<close>

definition returns :: "fault + heap \<times> BowlResult \<Rightarrow> (BowlValue \<Rightarrow> bool) \<Rightarrow> bool" where
  "returns x P = (\<exists>h r. x = Inr (h, r) \<and> (\<not> failure r \<longrightarrow> P (content r)))"

section \<open>Example states\<close>



definition bottom_frame :: BowlStackFrame where
  "bottom_frame = \<lparr> previous = None, registers = [Null, Null, Null], dictionary = None,
                    callstack = None, datastack = Some (Variable 1) \<rparr>"

definition memory_with :: "BowlValue \<Rightarrow> memory" where
  "memory_with stack_value =
     \<lparr> frames = (\<lambda>a. if a = 0 then Some bottom_frame else None),
       variables = (\<lambda>a. if a = 1 then Some stack_value else if a = 2 then Some Null else None) \<rparr>"








section \<open>Properties of the frame initializers\<close>

text \<open>
  C8, as amended. For every predecessor frame \<open>s\<close> at the address \<open>p\<close>, the frame that
  \<^verbatim>\<open>BOWL_ALLOCATE_STACK_FRAME(p, a, b, c)\<close> initializes has its previous pointer equal to
  \<open>p\<close>, its dictionary, callstack and datastack pointers equal to those of \<open>s\<close>, and its
  three registers equal to the arguments \<open>a\<close>, \<open>b\<close> and \<open>c\<close>: a register is null where
  the caller passes \<^verbatim>\<open>NULL\<close> for it.
\<close>

theorem allocate_stack_frame_inherits:
  assumes "frames mem p = Some s"
  shows "BOWL_ALLOCATE_STACK_FRAME mem (Some p) a b c =
          Inr \<lparr> previous = Some p, registers = [a, b, c], dictionary = dictionary s,
                callstack = callstack s, datastack = datastack s \<rparr>"
  using assms by (simp add: BOWL_ALLOCATE_STACK_FRAME_def frame_at_def)

theorem allocate_stack_frame_inherits_witness:
  "BOWL_ALLOCATE_STACK_FRAME (memory_with Null) (Some 0) (Boolean 0 True) Null Null =
     Inr \<lparr> previous = Some 0, registers = [Boolean 0 True, Null, Null], dictionary = None,
           callstack = None, datastack = Some (Variable 1) \<rparr>"
proof -
  have "frames (memory_with Null) 0 = Some bottom_frame"
    by (simp add: memory_with_def)
  from allocate_stack_frame_inherits [OF this, of "Boolean 0 True" Null Null]
  show ?thesis by (simp add: bottom_frame_def)
qed

text \<open>
  The claim C8 as it stands says that the three registers are initially null. The frame
  below inherits from the frame at address 0 and its first register holds a boolean.
\<close>

theorem allocate_stack_frame_registers_counterexample:
  "BOWL_ALLOCATE_STACK_FRAME (memory_with Null) (Some 0) (Boolean 0 True) Null Null \<noteq>
     Inr \<lparr> previous = Some 0, registers = [Null, Null, Null], dictionary = None,
           callstack = None, datastack = Some (Variable 1) \<rparr>"
  by (simp add: BOWL_ALLOCATE_STACK_FRAME_def frame_at_def memory_with_def bottom_frame_def)

text \<open>
  C10. \<^verbatim>\<open>BOWL_ALLOCATE_STACK_FRAME\<close> reads three fields through its first argument: with
  \<^verbatim>\<open>NULL\<close> it dereferences a null pointer, and it yields a frame exactly when the argument
  points to a frame. \<^verbatim>\<open>BOWL_EMPTY_STACK_FRAME\<close> yields a frame for every argument, the null
  pointer included.
\<close>

theorem allocate_stack_frame_null_predecessor:
  "BOWL_ALLOCATE_STACK_FRAME mem None a b c = Inl NullDereference
   \<and> (\<exists>f. BOWL_ALLOCATE_STACK_FRAME mem stack a b c = Inr f)
       = (\<exists>p s. stack = Some p \<and> frames mem p = Some s)
   \<and> BOWL_EMPTY_STACK_FRAME mem stack =
       Inr \<lparr> previous = stack, registers = [Null, Null, Null], dictionary = None,
             callstack = None, datastack = None \<rparr>"
  by (auto simp: BOWL_ALLOCATE_STACK_FRAME_def BOWL_EMPTY_STACK_FRAME_def frame_at_def
        split: option.splits)

section \<open>Properties of the exception helper\<close>



lemma format_stack_underflow:
  "format stack_underflow [fn] = ''stack underflow in function '' @ [CHR 0x27] @ fn @ [CHR 0x27]"
  by (simp add: stack_underflow_def)

lemma sublist_stack_underflow: "sublist fn (format stack_underflow [fn])"
  unfolding format_stack_underflow by (metis append.assoc sublist_appendI)



section \<open>Properties of the type assertion\<close>



section \<open>Properties of the pop from the datastack\<close>

lemma datastack_of_frame:
  "frames mem p = Some f \<Longrightarrow> datastack f = Some d \<Longrightarrow> datastack_of mem (Some p) = Inr d"
  by (simp add: datastack_of_def frame_at_def and_then_def deref_def)

text \<open>
  A pop from the empty datastack returns the value of \<^verbatim>\<open>bowl_format_exception\<close> for the
  message of the underflow and the function, and leaves the memory as it was.
\<close>

lemma pop_empty:
  assumes "frames mem p = Some f" "datastack f = Some d" "load mem d = Inr Null"
  shows "BOWL_STACK_POP_VALUE format_exception fn h mem (Some p) variable =
           Inr (fst (format_exception h stack_underflow [fn]), mem,
                Return (content (snd (format_exception h stack_underflow [fn]))))"
  using assms
  by (simp add: BOWL_STACK_POP_VALUE_def datastack_of_frame and_then_def split: prod.splits)

lemma pop_empty_names:
  assumes "formatter_ok format_exception"
    and "frames mem p = Some f" "datastack f = Some d" "load mem d = Inr Null"
    and "BOWL_STACK_POP_VALUE format_exception fn h mem (Some p) variable = Inr (h1, mem1, c)"
    and "\<not> failure (snd (format_exception h stack_underflow [fn]))"
  shows "mem1 = mem \<and> (\<exists>hs e hs' m. c = Return (Exception hs e (String hs' m)) \<and> sublist fn m)"
proof -
  from assms(1,6) obtain hs e hs'
    where "content (snd (format_exception h stack_underflow [fn])) =
             Exception hs e (String hs' (format stack_underflow [fn]))"
    unfolding formatter_ok_def by blast
  with assms(5) pop_empty [OF assms(2-4), of format_exception fn h variable]
  show ?thesis
    using sublist_stack_underflow [of fn] by auto
qed


section \<open>Properties of lists\<close>


lemma content_success [simp]: "content (success v) = v" "\<not> failure (success v)"
  by (simp_all add: success_def)











section \<open>Properties of maps\<close>

lemma returnsI: "x = Inr (h, r) \<Longrightarrow> (\<not> failure r \<Longrightarrow> P (content r)) \<Longrightarrow> returns x P"
  by (auto simp: returns_def)

lemma returns_success [simp]: "returns (Inr (h, success v)) P = P v"
  by (simp add: returns_def)

lemma returns_weaken: "returns x P \<Longrightarrow> (\<And>v. P v \<Longrightarrow> Q v) \<Longrightarrow> returns x Q"
  by (auto simp: returns_def)

lemma returns_on_success:
  "returns x P \<Longrightarrow> (\<And>h v. P v \<Longrightarrow> returns (f h v) Q) \<Longrightarrow> returns (on_success x f) Q"
  by (auto simp: returns_def on_success_def)

lemma returns_allocation:
  "P v \<Longrightarrow> returns (case bowl_allocate gc h t a of
              (h1, r) \<Rightarrow> if failure r then Inr (h1, r) else Inr (h1, success v)) P"
  by (auto simp: returns_def bowl_allocate_def Let_def failed_def split: prod.splits)

lemma is_bucket_stored_length: "is_bucket b \<Longrightarrow> \<exists>n. stored_length b = Inr n"
  by (cases b) auto

lemma returns_bowl_list:
  "stored_length xs = Inr n \<Longrightarrow> returns (bowl_list gc h x xs) (\<lambda>c. c = List 0 (1 + n) x xs)"
  by (simp add: bowl_list_def and_then_def returns_allocation)

lemma returns_pair_onto:
  assumes "is_bucket rest"
  shows "returns (pair_onto gc h k v rest)
           (\<lambda>b. is_bucket b \<and> pairs b = (k, v) # pairs rest)"
proof -
  from is_bucket_stored_length [OF assms] obtain n where n: "stored_length rest = Inr n" by blast
  show ?thesis
    unfolding pair_onto_def
  proof (rule returns_on_success [OF returns_bowl_list [OF n]])
    fix h1 vs
    assume vs: "vs = List 0 (1 + n) v rest"
    then have "stored_length vs = Inr (1 + n)" by simp
    from returns_bowl_list [OF this, of gc h1 k]
    show "returns (bowl_list gc h1 k vs) (\<lambda>b. is_bucket b \<and> pairs b = (k, v) # pairs rest)"
      by (rule returns_weaken) (use vs n assms in auto)
  qed
qed

lemma bucket_find_lookup: "is_bucket b \<Longrightarrow> bucket_find eq b k = Inr (lookup eq (pairs b) k)"
  by (induction b rule: is_bucket.induct) auto

lemma returns_bucket_replace:
  "is_bucket b \<Longrightarrow>
     returns (bucket_replace gc h eq b k v)
       (\<lambda>b'. is_bucket b' \<and> pairs b' = replace eq (pairs b) k v)"
proof (induction b arbitrary: h rule: is_bucket.induct)
  case (2 hs n key hs' m old rest)
  then have rest: "is_bucket rest" by simp
  show ?case
  proof (cases "eq key k")
    case True
    with returns_pair_onto [OF rest, of gc h k v] show ?thesis by simp
  next
    case False
    have "returns (on_success (bucket_replace gc h eq rest k v)
                     (\<lambda>h1 rest1. pair_onto gc h1 key old rest1))
            (\<lambda>b'. is_bucket b' \<and> pairs b' = (key, old) # replace eq (pairs rest) k v)"
    proof (rule returns_on_success [OF "2.IH" [OF rest]])
      fix h1 rest1
      assume "is_bucket rest1 \<and> pairs rest1 = replace eq (pairs rest) k v"
      with returns_pair_onto [of rest1 gc h1 key old]
      show "returns (pair_onto gc h1 key old rest1)
              (\<lambda>b'. is_bucket b' \<and> pairs b' = (key, old) # replace eq (pairs rest) k v)"
        by simp
    qed
    with False show ?thesis by simp
  qed
qed simp_all

lemma returns_bucket_remove:
  "is_bucket b \<Longrightarrow>
     returns (bucket_remove gc h eq b k)
       (\<lambda>b'. is_bucket b' \<and> pairs b' = remove eq (pairs b) k)"
proof (induction b arbitrary: h rule: is_bucket.induct)
  case (2 hs n key hs' m old rest)
  then have rest: "is_bucket rest" by simp
  show ?case
  proof (cases "eq key k")
    case True
    with rest show ?thesis by simp
  next
    case False
    have "returns (on_success (bucket_remove gc h eq rest k)
                     (\<lambda>h1 rest1. pair_onto gc h1 key old rest1))
            (\<lambda>b'. is_bucket b' \<and> pairs b' = (key, old) # remove eq (pairs rest) k)"
    proof (rule returns_on_success [OF "2.IH" [OF rest]])
      fix h1 rest1
      assume "is_bucket rest1 \<and> pairs rest1 = remove eq (pairs rest) k"
      with returns_pair_onto [of rest1 gc h1 key old]
      show "returns (pair_onto gc h1 key old rest1)
              (\<lambda>b'. is_bucket b' \<and> pairs b' = (key, old) # remove eq (pairs rest) k)"
        by simp
    qed
    with False show ?thesis by simp
  qed
qed simp_all

lemma returns_map_cell: "P (Map 0 n bs) \<Longrightarrow> returns (map_cell gc h n bs) P"
  by (simp add: map_cell_def returns_allocation)

lemma equivalence_sym: "equivalence eq \<Longrightarrow> eq a b = eq b a"
  unfolding equivalence_def by blast

lemma equivalence_trans: "equivalence eq \<Longrightarrow> eq a b \<Longrightarrow> eq b c \<Longrightarrow> eq a c"
  unfolding equivalence_def by blast

lemma equivalence_refl: "equivalence eq \<Longrightarrow> eq a a"
  unfolding equivalence_def by blast

lemma lookup_None: "lookup eq ps k = None \<longleftrightarrow> (\<forall>p \<in> set ps. \<not> eq (fst p) k)"
  by (induction ps) (auto split: if_splits)

lemma lookup_Some: "lookup eq ps k = Some v \<Longrightarrow> \<exists>key. (key, v) \<in> set ps \<and> eq key k"
  by (induction ps) (auto split: if_splits)

lemma lookup_unique:
  assumes "equivalence eq" "distinct_keys eq ps" "(key, v) \<in> set ps" "eq key k"
  shows "lookup eq ps k = Some v"
  using assms(2,3)
proof (induction ps)
  case (Cons p ps)
  obtain a b where p: "p = (a, b)" by (cases p)
  show ?case
  proof (cases "(key, v) = p")
    case True
    with p assms(4) show ?thesis by simp
  next
    case False
    with Cons have in_ps: "(key, v) \<in> set ps" by simp
    with Cons p have "\<not> eq a key" by fastforce
    with assms(1,4) have "\<not> eq a k"
      by (meson equivalence_sym equivalence_trans)
    with Cons in_ps p show ?thesis by simp
  qed
qed simp

lemma distinct_keys_append:
  "distinct_keys eq (xs @ ys) =
     (distinct_keys eq xs \<and> distinct_keys eq ys \<and>
      (\<forall>p \<in> set xs. \<forall>q \<in> set ys. \<not> eq (fst p) (fst q)))"
  by (induction xs) auto

lemma distinct_keys_filter: "distinct_keys eq ps \<Longrightarrow> distinct_keys eq (filter P ps)"
  by (induction ps) auto

lemma distinct_keys_rev:
  assumes "equivalence eq"
  shows "distinct_keys eq (rev ps) = distinct_keys eq ps"
proof (induction ps)
  case (Cons p ps)
  have "(\<forall>q \<in> set ps. \<not> eq (fst q) (fst p)) = (\<forall>q \<in> set ps. \<not> eq (fst p) (fst q))"
    using equivalence_sym [OF assms] by blast
  with Cons show ?case by (auto simp: distinct_keys_append)
qed simp

lemma distinct_keys_concat:
  assumes "\<forall>xs \<in> set t. distinct_keys eq xs"
    and "\<forall>i j. i < j \<and> j < length t \<longrightarrow>
           (\<forall>p \<in> set (t ! i). \<forall>q \<in> set (t ! j). \<not> eq (fst p) (fst q))"
  shows "distinct_keys eq (concat t)"
  using assms
proof (induction t)
  case (Cons x t)
  have 1: "distinct_keys eq (concat t)"
  proof (rule Cons.IH)
    show "\<forall>xs \<in> set t. distinct_keys eq xs" using Cons.prems(1) by simp
    show "\<forall>i j. i < j \<and> j < length t \<longrightarrow>
           (\<forall>p \<in> set (t ! i). \<forall>q \<in> set (t ! j). \<not> eq (fst p) (fst q))"
    proof (intro allI impI)
      fix i j assume "i < j \<and> j < length t"
      then have "Suc i < Suc j \<and> Suc j < length (x # t)" by simp
      with Cons.prems(2) have
        "\<forall>p \<in> set ((x # t) ! Suc i). \<forall>q \<in> set ((x # t) ! Suc j). \<not> eq (fst p) (fst q)"
        by blast
      then show "\<forall>p \<in> set (t ! i). \<forall>q \<in> set (t ! j). \<not> eq (fst p) (fst q)" by simp
    qed
  qed
  have 2: "\<forall>p \<in> set x. \<forall>q \<in> set (concat t). \<not> eq (fst p) (fst q)"
  proof (intro ballI)
    fix p q assume p: "p \<in> set x" and "q \<in> set (concat t)"
    then obtain xs where xs: "xs \<in> set t" "q \<in> set xs" by auto
    then obtain j where j: "j < length t" "q \<in> set (t ! j)"
      by (metis in_set_conv_nth)
    then have "0 < Suc j \<and> Suc j < length (x # t)" by simp
    with Cons.prems(2) have
      "\<forall>p \<in> set ((x # t) ! 0). \<forall>q \<in> set ((x # t) ! Suc j). \<not> eq (fst p) (fst q)"
      by blast
    with p j show "\<not> eq (fst p) (fst q)" by simp
  qed
  from 1 2 Cons.prems(1) show ?case by (simp add: distinct_keys_append)
qed simp

lemma lookup_replace:
  "eq k k \<Longrightarrow> lookup eq ps k \<noteq> None \<Longrightarrow> lookup eq (replace eq ps k v) k = Some v"
  by (induction ps) auto

lemma set_replace: "set (replace eq ps k v) \<subseteq> insert (k, v) (set ps)"
  by (induction ps) (auto split: if_splits)

lemma distinct_keys_replace:
  assumes "equivalence eq"
  shows "distinct_keys eq ps \<Longrightarrow> distinct_keys eq (replace eq ps k v)"
proof (induction ps)
  case (Cons p ps)
  obtain a b where p: "p = (a, b)" by (cases p)
  show ?case
  proof (cases "eq a k")
    case True
    have "\<not> eq k (fst q)" if "q \<in> set ps" for q
    proof
      assume "eq k (fst q)"
      with True assms have "eq a (fst q)" by (meson equivalence_sym equivalence_trans)
      with Cons.prems p that show False by auto
    qed
    with Cons.prems p True show ?thesis by simp
  next
    case False
    have "\<not> eq a (fst q)" if "q \<in> set (replace eq ps k v)" for q
    proof (cases "q = (k, v)")
      case True
      with False assms show ?thesis by simp
    next
      case False
      with that set_replace [of eq ps k v] have "q \<in> set ps" by auto
      with Cons.prems p show ?thesis by auto
    qed
    with Cons p False show ?thesis by simp
  qed
qed simp

lemma set_remove: "set (remove eq ps k) \<subseteq> set ps"
  by (induction ps) (auto split: if_splits)

lemma distinct_keys_remove: "distinct_keys eq ps \<Longrightarrow> distinct_keys eq (remove eq ps k)"
proof (induction ps)
  case (Cons p ps)
  then show ?case using set_remove [of eq ps k] by (cases p) auto
qed simp


lemma bucket_index_less: "0 < c \<Longrightarrow> bucket_index hash_of k c < c"
  by (simp add: bucket_index_def)

lemma length_table_insert [simp]: "length (table_insert hash_of t p) = length t"
  by (cases p) simp

lemma length_table_rehash [simp]: "length (foldl (table_insert hash_of) t ps) = length t"
  by (induction ps arbitrary: t) simp_all

lemma nth_table_insert:
  "j < length t \<Longrightarrow>
     table_insert hash_of t p ! j =
       (if bucket_index hash_of (fst p) (length t) = j then p # t ! j else t ! j)"
  by (cases p) (auto simp: nth_list_update)

lemma nth_table_rehash:
  "j < length t \<Longrightarrow>
     foldl (table_insert hash_of) t ps ! j =
       rev (filter (\<lambda>p. bucket_index hash_of (fst p) (length t) = j) ps) @ t ! j"
proof (induction ps arbitrary: t)
  case (Cons p ps)
  then have "j < length (table_insert hash_of t p)" by simp
  from Cons.IH [OF this] Cons.prems show ?case
    by (simp add: nth_table_insert)
qed simp

lemma table_ok_distinct_concat:
  assumes "hash_respects hash_of eq" and "table_ok eq hash_of t"
  shows "distinct_keys eq (concat t)"
proof (rule distinct_keys_concat)
  show "\<forall>xs \<in> set t. distinct_keys eq xs"
    using assms(2) by (auto simp: table_ok_def in_set_conv_nth)
  show "\<forall>i j. i < j \<and> j < length t \<longrightarrow>
          (\<forall>p \<in> set (t ! i). \<forall>q \<in> set (t ! j). \<not> eq (fst p) (fst q))"
  proof (intro allI impI ballI)
    fix i j p q
    assume ij: "i < j \<and> j < length t" and p: "p \<in> set (t ! i)" and q: "q \<in> set (t ! j)"
    from ij p assms(2) have "bucket_index hash_of (fst p) (length t) = i"
      by (simp add: table_ok_def)
    moreover from ij q assms(2) have "bucket_index hash_of (fst q) (length t) = j"
      by (simp add: table_ok_def)
    ultimately have "hash_of (fst p) \<noteq> hash_of (fst q)"
      using ij by (auto simp: bucket_index_def)
    with assms(1) show "\<not> eq (fst p) (fst q)"
      by (auto simp: hash_respects_def)
  qed
qed

lemma table_ok_rehash:
  assumes "equivalence eq" and "hash_respects hash_of eq" and "table_ok eq hash_of t"
    and "0 < c"
  shows "table_ok eq hash_of (foldl (table_insert hash_of) (replicate c []) (concat t))"
proof -
  have d: "distinct_keys eq (concat t)"
    by (rule table_ok_distinct_concat [OF assms(2,3)])
  have "distinct_keys eq (foldl (table_insert hash_of) (replicate c []) (concat t) ! j)
        \<and> (\<forall>p \<in> set (foldl (table_insert hash_of) (replicate c []) (concat t) ! j).
              bucket_index hash_of (fst p) c = j)"
    if "j < c" for j
    using that d by (simp add: nth_table_rehash distinct_keys_rev [OF assms(1)] distinct_keys_filter)
  moreover have "foldl (table_insert hash_of) (replicate c []) (concat t) \<noteq> []"
    using assms(4) by (metis length_table_rehash length_replicate length_greater_0_conv)
  ultimately show ?thesis
    by (simp add: table_ok_def)
qed

lemma lookup_rehash:
  assumes "equivalence eq" and "hash_respects hash_of eq" and "table_ok eq hash_of t"
    and "0 < c"
    and "lookup eq (t ! bucket_index hash_of k (length t)) k = Some v"
  shows "lookup eq (foldl (table_insert hash_of) (replicate c []) (concat t)
                      ! bucket_index hash_of k c) k = Some v"
proof -
  from assms(3) have "0 < length t" by (simp add: table_ok_def)
  then have i: "bucket_index hash_of k (length t) < length t" by (rule bucket_index_less)
  from lookup_Some [OF assms(5)] obtain key
    where key: "(key, v) \<in> set (t ! bucket_index hash_of k (length t))" "eq key k"
    by blast
  from key(1) i have mem: "(key, v) \<in> set (concat t)"
    by (auto simp: in_set_conv_nth) (metis nth_mem)
  from key(2) assms(2) have "bucket_index hash_of key c = bucket_index hash_of k c"
    by (simp add: hash_respects_def bucket_index_def)
  with mem have
    "(key, v) \<in> set (rev (filter (\<lambda>p. bucket_index hash_of (fst p) c = bucket_index hash_of k c)
                         (concat t)))"
    by simp
  moreover have
    "distinct_keys eq (rev (filter (\<lambda>p. bucket_index hash_of (fst p) c = bucket_index hash_of k c)
                         (concat t)))"
    using table_ok_distinct_concat [OF assms(2,3)]
    by (simp add: distinct_keys_rev [OF assms(1)] distinct_keys_filter)
  ultimately show ?thesis
    using bucket_index_less [OF assms(4), of hash_of k] key(2)
    by (simp add: nth_table_rehash lookup_unique [OF assms(1)])
qed

lemma table_ok_update:
  assumes "table_ok eq hash_of t" and "distinct_keys eq ps"
    and "\<forall>p \<in> set ps. bucket_index hash_of (fst p) (length t) = i"
  shows "table_ok eq hash_of (t[i := ps])"
proof -
  have "distinct_keys eq (t[i := ps] ! j) \<and>
        (\<forall>p \<in> set (t[i := ps] ! j). bucket_index hash_of (fst p) (length t) = j)"
    if "j < length t" for j
  proof (cases "j = i")
    case True
    with that assms(2,3) show ?thesis by simp
  next
    case False
    with that assms(1) show ?thesis by (simp add: table_ok_def)
  qed
  with assms(1) show ?thesis by (simp add: table_ok_def)
qed

lemma list_all_update:
  "list_all P xs \<Longrightarrow> P x \<Longrightarrow> list_all P (xs[i := x])"
  using set_update_subset_insert [of xs i x] by (auto simp: list_all_iff)

lemma returns_insert_pair:
  assumes "list_all is_bucket bs" and "bs \<noteq> []"
  shows "returns (insert_pair gc h hash_of (Map hs n bs) k v)
           (\<lambda>m'. \<exists>bs'. m' = Map hs n bs' \<and> list_all is_bucket bs' \<and>
                   map pairs bs' = table_insert hash_of (map pairs bs) (k, v))"
proof -
  let ?i = "bucket_index hash_of k (length bs)"
  from assms(2) have i: "?i < length bs" by (simp add: bucket_index_less)
  with assms(1) have b: "is_bucket (bs ! ?i)" by (simp add: list_all_length)
  have "returns (on_success (pair_onto gc h k v (bs ! ?i))
                   (\<lambda>h1 b. Inr (h1, success (Map hs n (bs[?i := b])))))
          (\<lambda>m'. \<exists>bs'. m' = Map hs n bs' \<and> list_all is_bucket bs' \<and>
                   map pairs bs' = table_insert hash_of (map pairs bs) (k, v))"
  proof (rule returns_on_success [OF returns_pair_onto [OF b]])
    fix h1 b'
    assume "is_bucket b' \<and> pairs b' = (k, v) # pairs (bs ! ?i)"
    with assms(1) i
    show "returns (Inr (h1, success (Map hs n (bs[?i := b']))))
            (\<lambda>m'. \<exists>bs'. m' = Map hs n bs' \<and> list_all is_bucket bs' \<and>
                     map pairs bs' = table_insert hash_of (map pairs bs) (k, v))"
      by (simp add: list_all_update map_update)
  qed
  with assms(2) show ?thesis by simp
qed

lemma returns_rehash_bucket:
  "is_bucket b \<Longrightarrow> list_all is_bucket bs \<Longrightarrow> bs \<noteq> [] \<Longrightarrow>
     returns (rehash_bucket gc h hash_of b (Map hs n bs))
       (\<lambda>m'. \<exists>bs'. m' = Map hs n bs' \<and> list_all is_bucket bs' \<and>
               map pairs bs' = foldl (table_insert hash_of) (map pairs bs) (pairs b))"
proof (induction b arbitrary: h bs rule: is_bucket.induct)
  case (2 hs1 n1 key hs2 n2 v rest)
  then have rest: "is_bucket rest" by simp
  have "returns (on_success (insert_pair gc h hash_of (Map hs n bs) key v)
                   (\<lambda>h1 target1. rehash_bucket gc h1 hash_of rest target1))
          (\<lambda>m'. \<exists>bs'. m' = Map hs n bs' \<and> list_all is_bucket bs' \<and>
                  map pairs bs' =
                    foldl (table_insert hash_of) (table_insert hash_of (map pairs bs) (key, v))
                      (pairs rest))"
  proof (rule returns_on_success [OF returns_insert_pair [OF "2.prems"(2,3)]])
    fix h1 m1
    assume "\<exists>bs1. m1 = Map hs n bs1 \<and> list_all is_bucket bs1 \<and>
                  map pairs bs1 = table_insert hash_of (map pairs bs) (key, v)"
    then obtain bs1 where m1: "m1 = Map hs n bs1" and ok: "list_all is_bucket bs1"
      and t: "map pairs bs1 = table_insert hash_of (map pairs bs) (key, v)"
      by blast
    from arg_cong [OF t, of length] have "length bs1 = length bs"
      by simp
    with "2.prems"(3) have "bs1 \<noteq> []" by auto
    from "2.IH" [OF rest ok this, of h1] m1 t
    show "returns (rehash_bucket gc h1 hash_of rest m1)
            (\<lambda>m'. \<exists>bs'. m' = Map hs n bs' \<and> list_all is_bucket bs' \<and>
                  map pairs bs' =
                    foldl (table_insert hash_of) (table_insert hash_of (map pairs bs) (key, v))
                      (pairs rest))"
      by simp
  qed
  then show ?case by simp
qed simp_all

lemma returns_rehash_buckets:
  "list_all is_bucket old \<Longrightarrow> list_all is_bucket bs \<Longrightarrow> bs \<noteq> [] \<Longrightarrow>
     returns (rehash_buckets gc h hash_of old (Map hs n bs))
       (\<lambda>m'. \<exists>bs'. m' = Map hs n bs' \<and> list_all is_bucket bs' \<and>
               map pairs bs' = foldl (table_insert hash_of) (map pairs bs) (concat (map pairs old)))"
proof (induction old arbitrary: h bs)
  case Nil
  then show ?case by simp
next
  case (Cons b old)
  then have b: "is_bucket b" and old: "list_all is_bucket old" by simp_all
  have "returns (on_success (rehash_bucket gc h hash_of b (Map hs n bs))
                   (\<lambda>h1 target1. rehash_buckets gc h1 hash_of old target1))
          (\<lambda>m'. \<exists>bs'. m' = Map hs n bs' \<and> list_all is_bucket bs' \<and>
                  map pairs bs' =
                    foldl (table_insert hash_of)
                      (foldl (table_insert hash_of) (map pairs bs) (pairs b))
                      (concat (map pairs old)))"
  proof (rule returns_on_success [OF returns_rehash_bucket [OF b Cons.prems(2,3)]])
    fix h1 m1
    assume "\<exists>bs1. m1 = Map hs n bs1 \<and> list_all is_bucket bs1 \<and>
                  map pairs bs1 = foldl (table_insert hash_of) (map pairs bs) (pairs b)"
    then obtain bs1 where m1: "m1 = Map hs n bs1" and ok: "list_all is_bucket bs1"
      and t: "map pairs bs1 = foldl (table_insert hash_of) (map pairs bs) (pairs b)"
      by blast
    from arg_cong [OF t, of length] have "length bs1 = length bs"
      by simp
    with Cons.prems(3) have "bs1 \<noteq> []" by auto
    from Cons.IH [OF old ok this, of h1] m1 t
    show "returns (rehash_buckets gc h1 hash_of old m1)
            (\<lambda>m'. \<exists>bs'. m' = Map hs n bs' \<and> list_all is_bucket bs' \<and>
                  map pairs bs' =
                    foldl (table_insert hash_of)
                      (foldl (table_insert hash_of) (map pairs bs) (pairs b))
                      (concat (map pairs old)))"
      by simp
  qed
  then show ?case by simp
qed

declare power_of_two_from.simps [simp del]

lemma power_of_two_from_pos: "0 < p \<Longrightarrow> 0 < power_of_two_from p n"
proof (induction p n rule: power_of_two_from.induct)
  case (1 p n)
  show ?case
  proof (cases "n \<le> p \<or> p = 0")
    case True
    with 1 show ?thesis by (subst power_of_two_from.simps) simp
  next
    case False
    with 1 have "0 < power_of_two_from (2 * p) n" by simp
    with False show ?thesis by (subst power_of_two_from.simps) simp
  qed
qed

lemma next_power_of_two_pos: "0 < next_power_of_two n"
  by (simp add: next_power_of_two_def power_of_two_from_pos)

lemma returns_grow:
  assumes "list_all is_bucket bs"
  shows "returns (grow gc h hash_of n bs)
           (\<lambda>m'. \<exists>bs'. m' = Map 0 n bs' \<and> list_all is_bucket bs' \<and>
                   map pairs bs' =
                     foldl (table_insert hash_of)
                       (replicate (next_power_of_two (2 * unat n)) [])
                       (concat (map pairs bs)))"
proof -
  have cell: "returns (map_cell gc h n (replicate (next_power_of_two (2 * unat n)) Null))
                (\<lambda>t. t = Map 0 n (replicate (next_power_of_two (2 * unat n)) Null))"
    by (rule returns_map_cell) simp
  show ?thesis
    unfolding grow_def
  proof (rule returns_on_success [OF cell])
  fix h1 target
  assume target: "target = Map 0 n (replicate (next_power_of_two (2 * unat n)) Null)"
  have "list_all is_bucket (replicate (next_power_of_two (2 * unat n)) Null)"
    by (simp add: list_all_iff)
  moreover have "replicate (next_power_of_two (2 * unat n)) Null \<noteq> []"
    using next_power_of_two_pos [of "2 * unat n"] by simp
  ultimately show "returns (rehash_buckets gc h1 hash_of bs target)
           (\<lambda>m'. \<exists>bs'. m' = Map 0 n bs' \<and> list_all is_bucket bs' \<and>
                   map pairs bs' =
                     foldl (table_insert hash_of)
                       (replicate (next_power_of_two (2 * unat n)) [])
                       (concat (map pairs bs)))"
    using returns_rehash_buckets [OF assms, of "replicate (next_power_of_two (2 * unat n)) Null"
            gc h1 hash_of 0 n] target
    by simp
  qed
qed



lemma returns_new_bucket:
  assumes "equivalence eq" and "is_bucket b" and "distinct_keys eq (pairs b)"
    and "\<forall>p \<in> set (pairs b). bucket_index hash_of (fst p) c = bucket_index hash_of k c"
  shows "returns
           (case lookup eq (pairs b) k of
              None \<Rightarrow> pair_onto gc h k v b
            | Some _ \<Rightarrow> bucket_replace gc h eq b k v)
           (\<lambda>b'. is_bucket b' \<and> distinct_keys eq (pairs b') \<and>
                  (\<forall>p \<in> set (pairs b'). bucket_index hash_of (fst p) c = bucket_index hash_of k c) \<and>
                  lookup eq (pairs b') k = Some v)"
proof (cases "lookup eq (pairs b) k")
  case None
  then have "\<forall>q \<in> set (pairs b). \<not> eq k (fst q)"
    using equivalence_sym [OF assms(1)] by (auto simp: lookup_None)
  with assms None returns_pair_onto [OF assms(2), of gc h k v] show ?thesis
    by (auto elim!: returns_weaken simp: equivalence_refl)
next
  case (Some old)
  have "lookup eq (replace eq (pairs b) k v) k = Some v"
    using Some by (simp add: lookup_replace equivalence_refl [OF assms(1)])
  moreover have "distinct_keys eq (replace eq (pairs b) k v)"
    by (rule distinct_keys_replace [OF assms(1,3)])
  moreover have "\<forall>p \<in> set (replace eq (pairs b) k v).
                   bucket_index hash_of (fst p) c = bucket_index hash_of k c"
    using set_replace [of eq "pairs b" k v] assms(4) by auto
  ultimately show ?thesis
    using Some returns_bucket_replace [OF assms(2), of gc h eq k v]
    by (auto elim!: returns_weaken)
qed

lemma returns_put:
  assumes "equivalence eq" and "hash_respects hash_of eq"
    and "list_all is_bucket bs" and "table_ok eq hash_of (map pairs bs)"
  shows "returns (bowl_map_put gc h hash_of eq (Map hs n bs) k v)
           (\<lambda>m'. \<exists>bs'. m' = Map 0 (if lookup eq (pairs (bs ! bucket_index hash_of k (length bs))) k = None
                                    then n + 1 else n) bs' \<and>
                   list_all is_bucket bs' \<and> table_ok eq hash_of (map pairs bs') \<and>
                   lookup eq (pairs (bs' ! bucket_index hash_of k (length bs'))) k = Some v)"
proof -
  let ?i = "bucket_index hash_of k (length bs)"
  let ?found = "lookup eq (pairs (bs ! ?i)) k"
  let ?n1 = "if ?found = None then n + 1 else n"
  let ?Q = "\<lambda>m'. \<exists>bs'. m' = Map 0 ?n1 bs' \<and>
                   list_all is_bucket bs' \<and> table_ok eq hash_of (map pairs bs') \<and>
                   lookup eq (pairs (bs' ! bucket_index hash_of k (length bs'))) k = Some v"
  from assms(4) have ne: "bs \<noteq> []" by (auto simp: table_ok_def)
  then have i: "?i < length bs" by (simp add: bucket_index_less)
  with assms(3) have b: "is_bucket (bs ! ?i)" by (simp add: list_all_length)
  from assms(4) i have d: "distinct_keys eq (pairs (bs ! ?i))"
    and pl: "\<forall>p \<in> set (pairs (bs ! ?i)). bucket_index hash_of (fst p) (length bs) = ?i"
    by (auto simp: table_ok_def)
  have n1: "(case ?found of None \<Rightarrow> n + 1 | Some _ \<Rightarrow> n) = ?n1"
    by (cases ?found) simp_all
  let ?rest = "\<lambda>h1 b.
               let n1 = (case ?found of None \<Rightarrow> n + 1 | Some _ \<Rightarrow> n);
                   bs1 = bs[?i := b]
               in if over_load_factor n1 (length bs1) then grow gc h1 hash_of n1 bs1
                  else map_cell gc h1 n1 bs1"
  have unfold: "bowl_map_put gc h hash_of eq (Map hs n bs) k v =
          on_success
            (case ?found of
               None \<Rightarrow> pair_onto gc h k v (bs ! ?i)
             | Some _ \<Rightarrow> bucket_replace gc h eq (bs ! ?i) k v)
            ?rest"
    using ne b by (simp add: bucket_find_lookup and_then_def)
  have "returns
          (on_success
            (case ?found of
               None \<Rightarrow> pair_onto gc h k v (bs ! ?i)
             | Some _ \<Rightarrow> bucket_replace gc h eq (bs ! ?i) k v)
            ?rest)
          ?Q"
  proof (rule returns_on_success [OF returns_new_bucket [OF assms(1) b d pl]])
    fix h1 b'
    assume b': "is_bucket b' \<and> distinct_keys eq (pairs b') \<and>
                (\<forall>p \<in> set (pairs b'). bucket_index hash_of (fst p) (length bs) = ?i) \<and>
                lookup eq (pairs b') k = Some v"
    let ?bs1 = "bs[?i := b']"
    have ok1: "list_all is_bucket ?bs1"
      using assms(3) b' by (simp add: list_all_update)
    have t1: "table_ok eq hash_of (map pairs ?bs1)"
      using table_ok_update [OF assms(4), of "pairs b'" ?i] b' by (simp add: map_update)
    have l1: "lookup eq (map pairs ?bs1 ! bucket_index hash_of k (length (map pairs ?bs1))) k = Some v"
      using b' i by simp
    have "returns (if over_load_factor ?n1 (length ?bs1) then grow gc h1 hash_of ?n1 ?bs1
                   else map_cell gc h1 ?n1 ?bs1) ?Q"
    proof (cases "over_load_factor ?n1 (length ?bs1)")
      case True
      let ?c = "next_power_of_two (2 * unat ?n1)"
      have "returns (grow gc h1 hash_of ?n1 ?bs1) ?Q"
      proof (rule returns_weaken [OF returns_grow [OF ok1]])
        fix m'
        assume "\<exists>bs'. m' = Map 0 ?n1 bs' \<and> list_all is_bucket bs' \<and>
                  map pairs bs' =
                    foldl (table_insert hash_of) (replicate ?c []) (concat (map pairs ?bs1))"
        then obtain bs' where m': "m' = Map 0 ?n1 bs'" and ok': "list_all is_bucket bs'"
          and t': "map pairs bs' =
                     foldl (table_insert hash_of) (replicate ?c []) (concat (map pairs ?bs1))"
          by blast
        from arg_cong [OF t', of length] have len: "length bs' = ?c" by simp
        have "table_ok eq hash_of (map pairs bs')"
          unfolding t' by (rule table_ok_rehash [OF assms(1,2) t1 next_power_of_two_pos])
        moreover have "lookup eq (map pairs bs' ! bucket_index hash_of k ?c) k = Some v"
          unfolding t' by (rule lookup_rehash [OF assms(1,2) t1 next_power_of_two_pos l1])
        then have "lookup eq (pairs (bs' ! bucket_index hash_of k (length bs'))) k = Some v"
          using len bucket_index_less [OF next_power_of_two_pos, of hash_of k "2 * unat ?n1"]
          by simp
        ultimately show "?Q m'" using m' ok' by blast
      qed
      with True show ?thesis by simp
    next
      case False
      have "returns (map_cell gc h1 ?n1 ?bs1) ?Q"
      proof (rule returns_map_cell)
        from l1 i have "lookup eq (pairs (?bs1 ! bucket_index hash_of k (length ?bs1))) k = Some v"
          by simp
        with ok1 t1 show "?Q (Map 0 ?n1 ?bs1)" by blast
      qed
      with False show ?thesis by simp
    qed
    then show "returns (?rest h1 b') ?Q"
      unfolding Let_def n1 .
  qed
  then show ?thesis
    unfolding unfold .
qed

lemma delete_absent:
  assumes "list_all is_bucket bs" and "bs \<noteq> []"
    and "lookup eq (pairs (bs ! bucket_index hash_of k (length bs))) k = None"
  shows "bowl_map_delete gc h hash_of eq (Map hs n bs) k = Inr (h, success (Map hs n bs))"
proof -
  from assms(2) have "bucket_index hash_of k (length bs) < length bs"
    by (simp add: bucket_index_less)
  with assms(1) have "is_bucket (bs ! bucket_index hash_of k (length bs))"
    by (simp add: list_all_length)
  with assms(2,3) show ?thesis
    by (simp add: bucket_find_lookup and_then_def)
qed


subsection \<open>The invariant is established and kept\<close>

lemma returns_bowl_map:
  assumes "0 < unat capacity"
  shows "returns (bowl_map gc h capacity) (map_ok eq hash_of)"
  unfolding bowl_map_def
proof (rule returns_map_cell)
  have "list_all is_bucket (replicate (unat capacity) Null)"
    by (simp add: list_all_iff)
  moreover have "table_ok eq hash_of (map pairs (replicate (unat capacity) Null))"
    using assms by (simp add: table_ok_def)
  ultimately show "map_ok eq hash_of (Map 0 0 (replicate (unat capacity) Null))"
    by simp
qed

lemma returns_put_map_ok:
  assumes "equivalence eq" and "hash_respects hash_of eq" and "map_ok eq hash_of m"
  shows "returns (bowl_map_put gc h hash_of eq m k v) (map_ok eq hash_of)"
proof -
  from assms(3) obtain hs n bs where m: "m = Map hs n bs"
    by (cases m) simp_all
  with assms(3) have ok: "list_all is_bucket bs" and t: "table_ok eq hash_of (map pairs bs)"
    by simp_all
  show ?thesis
    unfolding m
    by (rule returns_weaken [OF returns_put [OF assms(1,2) ok t]]) auto
qed

lemma returns_delete_map_ok:
  assumes "equivalence eq" and "map_ok eq hash_of m"
  shows "returns (bowl_map_delete gc h hash_of eq m k) (map_ok eq hash_of)"
proof -
  from assms(2) obtain hs n bs where m: "m = Map hs n bs"
    by (cases m) simp_all
  with assms(2) have ok: "list_all is_bucket bs" and t: "table_ok eq hash_of (map pairs bs)"
    by simp_all
  let ?i = "bucket_index hash_of k (length bs)"
  from t have ne: "bs \<noteq> []" by (auto simp: table_ok_def)
  then have i: "?i < length bs" by (simp add: bucket_index_less)
  with ok have b: "is_bucket (bs ! ?i)" by (simp add: list_all_length)
  from t i have d: "distinct_keys eq (pairs (bs ! ?i))"
    and pl: "\<forall>p \<in> set (pairs (bs ! ?i)). bucket_index hash_of (fst p) (length bs) = ?i"
    by (auto simp: table_ok_def)
  show ?thesis
  proof (cases "lookup eq (pairs (bs ! ?i)) k")
    case None
    from delete_absent [OF ok ne None, of gc h hs n] assms(2) show ?thesis
      by (simp add: m)
  next
    case (Some old)
    have "returns (on_success (bucket_remove gc h eq (bs ! ?i) k)
                     (\<lambda>h1 b. map_cell gc h1 (n - 1) (bs[?i := b]))) (map_ok eq hash_of)"
    proof (rule returns_on_success [OF returns_bucket_remove [OF b]])
      fix h1 b'
      assume b': "is_bucket b' \<and> pairs b' = remove eq (pairs (bs ! ?i)) k"
      show "returns (map_cell gc h1 (n - 1) (bs[?i := b'])) (map_ok eq hash_of)"
      proof (rule returns_map_cell)
        have "list_all is_bucket (bs[?i := b'])"
          using ok b' by (simp add: list_all_update)
        moreover have "table_ok eq hash_of (map pairs (bs[?i := b']))"
          using table_ok_update [OF t, of "pairs b'" ?i] b' distinct_keys_remove [OF d, of k]
            set_remove [of eq "pairs (bs ! ?i)" k] pl
          by (auto simp: map_update)
        ultimately show "map_ok eq hash_of (Map 0 (n - 1) (bs[?i := b']))" by simp
      qed
    qed
    with Some ne b show ?thesis
      by (simp add: m bucket_find_lookup and_then_def)
  qed
qed

subsection \<open>The laws of put, get and delete\<close>












end
